theory Spec2Isabelle
  imports Complex_Main "HOL-Library.Word" "HOL-Library.Multiset" "HOL-Library.Monad_Syntax"
begin

section \<open>The model of circles.c\<close>

text \<open>
  The file \<^verbatim>\<open>circles.c\<close> keeps its state in file-scope variables. The model collects the
  variables that the callbacks read and write in one record and passes it explicitly.

  \<^item> \<^verbatim>\<open>unsigned int\<close> is a 32-bit word: \<open>+\<close> wraps and \<open>mod\<close> is the unsigned remainder.
  \<^item> \<^verbatim>\<open>int nonLinCtl\<close> is an \<open>int\<close>: it is only ever incremented below 21 and
    decremented above -1, so no operation on it can overflow.
  \<^item> A finite \<^verbatim>\<open>double\<close> is the real number it denotes. The operations \<open>+\<close>, \<open>-\<close>, \<open>*\<close>
    and \<open>/\<close> of the key handler round their exact result to binary64 (\<open>rnd64\<close> below), as
    IEEE 754 prescribes. The C standard does not fix the rounding of \<^verbatim>\<open>pow\<close>: the two
    functions that call it, \<^verbatim>\<open>animEase\<close> and \<^verbatim>\<open>nonLinCtlCurve\<close>, are modelled in exact
    real arithmetic. The centring loop of \<^verbatim>\<open>circInit\<close> takes the rounding as a parameter.
  \<^item> Undefined behaviour (a remainder by zero, an index out of range, a conversion of a
    value that the target type cannot hold) is the result \<open>None\<close>.

  \<^verbatim>\<open>NUM_GROUPS\<close>, \<^verbatim>\<open>circleGroups\<close> and \<^verbatim>\<open>groupOrder\<close> are declared in \<^verbatim>\<open>circles.h\<close>,
  and \<^verbatim>\<open>rnd_int32\<close> in \<^verbatim>\<open>random.h\<close>, which are not among the sources: they are
  parameters of the functions that use them.
\<close>

subsection \<open>binary64 arithmetic\<close>

text \<open>
  \<open>ilog2 x\<close> is the binary exponent of a positive \<open>x\<close>: the \<open>e\<close> with
  \<open>2\<^sup>e \<le> x < 2\<^sup>e\<^sup>+\<^sup>1\<close>, found by scaling \<open>x\<close> into \<open>[1, 2)\<close>.
\<close>

function ilog2 :: "real \<Rightarrow> int" where
  "ilog2 x = (if x \<le> 0 then 0
              else if x < 1 then ilog2 (2 * x) - 1
              else if 2 \<le> x then ilog2 (x / 2) + 1
              else 0)"
  by pat_completeness auto
termination
proof (relation "measure (\<lambda>x. nat \<bar>\<lfloor>log 2 x\<rfloor>\<bar>)")
  show "wf (measure (\<lambda>x. nat \<bar>\<lfloor>log 2 x\<rfloor>\<bar>))"
    by simp
next
  fix x :: real
  assume "\<not> x \<le> 0" and "x < 1"
  then have x: "0 < x" "x < 1"
    by simp_all
  then have "log 2 x < 0"
    by simp
  then have "\<lfloor>log 2 x\<rfloor> \<le> - 1"
    by (simp add: floor_le_iff)
  moreover have "log 2 (2 * x) = log 2 x + 1"
    using x by (simp add: log_mult)
  ultimately show "(2 * x, x) \<in> measure (\<lambda>x. nat \<bar>\<lfloor>log 2 x\<rfloor>\<bar>)"
    by simp
next
  fix x :: real
  assume "\<not> x \<le> 0" and "\<not> x < 1" and x: "2 \<le> x"
  then have "log 2 2 \<le> log 2 x"
    by (subst log_le_cancel_iff) simp_all
  then have "1 \<le> \<lfloor>log 2 x\<rfloor>"
    by (simp add: le_floor_iff)
  moreover have "log 2 (x / 2) = log 2 x - 1"
    using x by (simp add: log_divide)
  ultimately show "(x / 2, x) \<in> measure (\<lambda>x. nat \<bar>\<lfloor>log 2 x\<rfloor>\<bar>)"
    by simp
qed

declare ilog2.simps [simp del]

text \<open>Rounding to the nearest integer, a tie going to the even neighbour.\<close>

definition round_even :: "real \<Rightarrow> int" where
  "round_even y =
     (let n = \<lfloor>y\<rfloor>; f = y - of_int n
      in if f < 1 / 2 then n else if 1 / 2 < f then n + 1 else if even n then n else n + 1)"

text \<open>
  Rounding to binary64, to nearest with ties to even: the result is a multiple of the unit
  in the last place of \<open>x\<close>, which is \<open>2\<^sup>e\<^sup>-\<^sup>5\<^sup>2\<close> for a normal number of exponent \<open>e\<close>
  (53 significant bits) and \<open>2\<^sup>-\<^sup>1\<^sup>0\<^sup>7\<^sup>4\<close> for a subnormal one. A result of magnitude
  \<open>2\<^sup>1\<^sup>0\<^sup>2\<^sup>4\<close> or more stands for an infinity; the only expression below that can get
  there is converted to \<^verbatim>\<open>unsigned int\<close> at once, which is undefined for any value that
  large.
\<close>

definition rnd64 :: "real \<Rightarrow> real" where
  "rnd64 x =
     (if x = 0 then 0
      else let u = 2 powi (max (ilog2 \<bar>x\<bar> - 52) (- 1074))
           in of_int (round_even (x / u)) * u)"

text \<open>
  The conversion of a \<^verbatim>\<open>double\<close> to \<^verbatim>\<open>unsigned int\<close> drops the fraction; it is undefined
  when the integral part is not a value of the type. The conversion back is exact.
\<close>

definition d2u :: "real \<Rightarrow> 32 word option" where
  "d2u x =
     (if - 1 < x \<and> x < 2 ^ 32
      then Some (word_of_int (if x < 0 then \<lceil>x\<rceil> else \<lfloor>x\<rfloor>))
      else None)"

definition u2d :: "32 word \<Rightarrow> real" where
  "u2d w = of_nat (unat w)"

subsection \<open>Parameters, constants and the state\<close>

definition FRAMERATE :: real where
  "FRAMERATE = 60"

definition NON_LIN_CTL_HI :: int where
  "NON_LIN_CTL_HI = 21"

definition NON_LIN_CTL_LO :: int where
  "NON_LIN_CTL_LO = - 1"

text \<open>The literals \<^verbatim>\<open>0.2\<close> and \<^verbatim>\<open>0.05\<close> denote the binary64 numbers nearest to them.\<close>

definition DURATION_CTL_LO :: real where
  "DURATION_CTL_LO = rnd64 (2 / 10)"

definition DURATION_CTL_DELTA :: real where
  "DURATION_CTL_DELTA = rnd64 (5 / 100)"

record anim_state =
  animDuration :: real
  nonLinCtl :: int
  animFrames :: "32 word"
  nonLin :: real
  currGroupIdx :: "32 word"
  currAnimFrame :: "32 word"

subsection \<open>Initialisation\<close>

text \<open>
  \<^verbatim>\<open>circleGroups[i][j][k]\<close> is coordinate \<open>k\<close> (0 is x, 1 is y, 2 is the radius) of circle
  \<open>j\<close> of group \<open>i\<close>; the array is a store indexed by the three subscripts, and the loops of
  \<^verbatim>\<open>circInit\<close> only use subscripts within the dimensions \<^verbatim>\<open>[NUM_GROUPS][4][3]\<close>.
  \<^verbatim>\<open>groupOrder\<close> is a list. Loop counters range over \<open>[0..<n]\<close>.

  The body of the two inner loops, for one group \<open>i\<close> and one axis \<open>k\<close>:
  \<^verbatim>\<open>
    avCoord = 0;
    for (j = 0; j < 4; j++) avCoord += circleGroups[i][j][k];
    for (j = 0; j < 4; j++) circleGroups[i][j][k] -= avCoord / 4.0;
  \<close>
  \<open>rd\<close> is the rounding of the arithmetic: \<open>rnd64\<close> in the program, the identity for exact
  arithmetic.
\<close>

type_synonym circle_groups = "nat \<Rightarrow> nat \<Rightarrow> nat \<Rightarrow> real"

definition centre_axis :: "(real \<Rightarrow> real) \<Rightarrow> nat \<Rightarrow> nat \<Rightarrow> circle_groups \<Rightarrow> circle_groups" where
  "centre_axis rd i k circleGroups =
     (let avCoord = fold (\<lambda>j av. rd (av + circleGroups i j k)) [0..<4] 0
      in fold (\<lambda>j cg. cg(i := (cg i)(j := (cg i j)(k := rd (cg i j k - rd (avCoord / 4))))))
           [0..<4] circleGroups)"

definition centre_groups :: "(real \<Rightarrow> real) \<Rightarrow> nat \<Rightarrow> circle_groups \<Rightarrow> circle_groups" where
  "centre_groups rd NUM_GROUPS circleGroups =
     fold (\<lambda>i cg. fold (\<lambda>k cg'. centre_axis rd i k cg') [0..<2] cg) [0..<NUM_GROUPS] circleGroups"

text \<open>
  One round of the shuffle, with \<open>r\<close> the value that \<^verbatim>\<open>rnd_int32(i, NUM_GROUPS)\<close> returned.
  (Every round calls \<^verbatim>\<open>rnd_int32\<close> once, each with another \<open>i\<close>, so a function of the
  arguments stands for any sequence of returned values.)
  \<^verbatim>\<open>
    idx = rnd_int32(i, NUM_GROUPS);
    tmp = groupOrder[idx];
    groupOrder[idx] = groupOrder[i];
    groupOrder[i] = tmp;
  \<close>
\<close>

definition shuffle_step :: "int \<Rightarrow> nat \<Rightarrow> nat list \<Rightarrow> nat list option" where
  "shuffle_step r i groupOrder =
     (let idx = r
      in if 0 \<le> idx \<and> nat idx < length groupOrder \<and> i < length groupOrder
         then let tmp = groupOrder ! nat idx;
                  groupOrder1 = groupOrder[nat idx := groupOrder ! i]
              in Some (groupOrder1[i := tmp])
         else None)"

text \<open>\<^verbatim>\<open>for (i = 0; i < NUM_GROUPS; i++) groupOrder[i] = i;\<close>\<close>

definition init_order :: "nat \<Rightarrow> nat list \<Rightarrow> nat list option" where
  "init_order NUM_GROUPS groupOrder =
     fold (\<lambda>i go. go \<bind> (\<lambda>g. if i < length g then Some (g[i := i]) else None))
       [0..<NUM_GROUPS] (Some groupOrder)"

text \<open>
  \<^verbatim>\<open>NUM_GROUPS\<close> is an array dimension, so it is positive. (With 0 the bound
  \<^verbatim>\<open>NUM_GROUPS - 1\<close> of the shuffle compared with the unsigned \<open>i\<close> would not be 0, and the
  loop body would index an empty array.)
\<close>

definition circInit ::
  "(real \<Rightarrow> real) \<Rightarrow> nat \<Rightarrow> (nat \<Rightarrow> nat \<Rightarrow> int) \<Rightarrow> circle_groups \<Rightarrow> nat list \<Rightarrow>
     (circle_groups \<times> nat list) option" where
  "circInit rd NUM_GROUPS rnd_int32 circleGroups groupOrder =
     (if NUM_GROUPS = 0 then None
      else
        do {
          let cg = centre_groups rd NUM_GROUPS circleGroups;
          go0 \<leftarrow> init_order NUM_GROUPS groupOrder;
          go \<leftarrow> fold (\<lambda>i go. go \<bind> shuffle_step (rnd_int32 i NUM_GROUPS) i)
                  [0..<NUM_GROUPS - 1] (Some go0);
          Some (cg, go)
        })"

subsection \<open>Easing\<close>

text \<open>
  \<^verbatim>\<open>pow(x, y)\<close> in exact arithmetic, where its value is a finite number: a positive base,
  base 0 with a non-negative exponent, and a negative base with an integer exponent. In
  the other cases the C function returns an infinity or a NaN, the result \<open>None\<close> here.
\<close>

definition pow :: "real \<Rightarrow> real \<Rightarrow> real option" where
  "pow x y =
     (if 0 < x then Some (x powr y)
      else if x = 0 then (if 0 < y then Some 0 else if y = 0 then Some 1 else None)
      else if y \<in> \<int> then Some (x powi \<lfloor>y\<rfloor>)
      else None)"

text \<open>
  \<^verbatim>\<open>
    if (t < 0.5) return 0.5 * pow(2 * t, nonLin);
    else return 1 - 0.5 * pow(2 * (1 - t), nonLin);
  \<close>
  The parameter \<^verbatim>\<open>nonLin\<close> hides the variable of the same name; it is \<open>nonLin'\<close> here.
\<close>

definition animEase :: "real \<Rightarrow> real \<Rightarrow> real option" where
  "animEase t nonLin' =
     (if t < 1 / 2 then map_option (\<lambda>p. 1 / 2 * p) (pow (2 * t) nonLin')
      else map_option (\<lambda>p. 1 - 1 / 2 * p) (pow (2 * (1 - t)) nonLin'))"

text \<open>
  \<^verbatim>\<open>
    if (nonLinCtl == -1) return 1;
    else return pow(2, nonLinCtl / 2.0 - 2) + 1;
  \<close>
  The base 2 is positive, so \<^verbatim>\<open>pow\<close> is the real power here.
\<close>

definition nonLinCtlCurve :: "int \<Rightarrow> real" where
  "nonLinCtlCurve c = (if c = - 1 then 1 else 2 powr (of_int c / 2 - 2) + 1)"

subsection \<open>The display callback\<close>

text \<open>
  \<^verbatim>\<open>animDisplay\<close> draws the four interpolated circles and the easing curve, then advances
  the clock:
  \<^verbatim>\<open>
    nextGroupIdx = (currGroupIdx + 1) % NUM_GROUPS;
    ...
    currAnimFrame = (currAnimFrame + 1) % animFrames;
    if (!currAnimFrame) currGroupIdx = nextGroupIdx;
  \<close>
  The drawing calls write to the frame buffer only; the model keeps the effect on the
  trackers. The remainder by zero is undefined in C, and so is the read of
  \<^verbatim>\<open>groupOrder[currGroupIdx]\<close> with \<^verbatim>\<open>currGroupIdx\<close> not below \<^verbatim>\<open>NUM_GROUPS\<close>: the
  result is \<open>None\<close> there. (The entries of \<^verbatim>\<open>groupOrder\<close>, which index \<^verbatim>\<open>circleGroups\<close>,
  are below \<^verbatim>\<open>NUM_GROUPS\<close> after \<^verbatim>\<open>circInit\<close>.)
\<close>

definition animDisplay :: "32 word \<Rightarrow> anim_state \<Rightarrow> anim_state option" where
  "animDisplay NUM_GROUPS s =
     (if NUM_GROUPS = 0 \<or> animFrames s = 0 \<or> NUM_GROUPS \<le> currGroupIdx s then None
      else
        let nextGroupIdx = (currGroupIdx s + 1) mod NUM_GROUPS;
            s1 = s\<lparr>currAnimFrame := (currAnimFrame s + 1) mod animFrames s\<rparr>
        in Some (if currAnimFrame s1 = 0 then s1\<lparr>currGroupIdx := nextGroupIdx\<rparr> else s1))"

text \<open>\<open>n\<close> display ticks in a row, with no other event in between.\<close>

fun ticks :: "32 word \<Rightarrow> nat \<Rightarrow> anim_state \<Rightarrow> anim_state option" where
  "ticks NUM_GROUPS 0 s = Some s"
| "ticks NUM_GROUPS (Suc n) s =
     (case animDisplay NUM_GROUPS s of
        None \<Rightarrow> None
      | Some s' \<Rightarrow> ticks NUM_GROUPS n s')"

subsection \<open>The special-key callback\<close>

text \<open>
  The expression \<^verbatim>\<open>currAnimFrame / (double) oldAnimFrames * animFrames\<close>, stored in the
  \<^verbatim>\<open>unsigned int currAnimFrame\<close>: a division and a multiplication of doubles, then the
  conversion. With \<^verbatim>\<open>oldAnimFrames\<close> 0 the quotient is an infinity or a NaN, and so is
  the product, which has no conversion.
\<close>

definition rescale :: "32 word \<Rightarrow> 32 word \<Rightarrow> 32 word \<Rightarrow> 32 word option" where
  "rescale c oldAnimFrames newAnimFrames =
     (if oldAnimFrames = 0 then None
      else d2u (rnd64 (rnd64 (u2d c / u2d oldAnimFrames) * u2d newAnimFrames)))"

datatype special_key =
  GLUT_KEY_LEFT | GLUT_KEY_UP | GLUT_KEY_RIGHT | GLUT_KEY_DOWN | GLUT_KEY_OTHER

fun animSpecialKeys :: "special_key \<Rightarrow> anim_state \<Rightarrow> anim_state option" where
  "animSpecialKeys GLUT_KEY_RIGHT s =
     (if DURATION_CTL_LO < animDuration s then
        do {
          let d = rnd64 (animDuration s - DURATION_CTL_DELTA);
          let oldAnimFrames = animFrames s;
          fr \<leftarrow> d2u (rnd64 (d * FRAMERATE));
          c \<leftarrow> rescale (currAnimFrame s) oldAnimFrames fr;
          Some (s\<lparr>animDuration := d, animFrames := fr, currAnimFrame := c\<rparr>)
        }
      else Some s)"
| "animSpecialKeys GLUT_KEY_LEFT s =
     do {
       let d = rnd64 (animDuration s + DURATION_CTL_DELTA);
       let oldAnimFrames = animFrames s;
       fr \<leftarrow> d2u (rnd64 (d * FRAMERATE));
       c \<leftarrow> rescale (currAnimFrame s) oldAnimFrames fr;
       Some (s\<lparr>animDuration := d, animFrames := fr, currAnimFrame := c\<rparr>)
     }"
| "animSpecialKeys GLUT_KEY_UP s =
     (if nonLinCtl s < NON_LIN_CTL_HI then
        Some (s\<lparr>nonLinCtl := nonLinCtl s + 1, nonLin := nonLinCtlCurve (nonLinCtl s + 1)\<rparr>)
      else Some s)"
| "animSpecialKeys GLUT_KEY_DOWN s =
     (if NON_LIN_CTL_LO < nonLinCtl s then
        Some (s\<lparr>nonLinCtl := nonLinCtl s - 1, nonLin := nonLinCtlCurve (nonLinCtl s - 1)\<rparr>)
      else Some s)"
| "animSpecialKeys GLUT_KEY_OTHER s = Some s"

subsection \<open>The main function and the event loop\<close>

text \<open>
  The state when \<^verbatim>\<open>glutMainLoop\<close> is entered: the initialisers of the variables, and
  \<^verbatim>\<open>
    animFrames = animDuration * FRAMERATE;
    nonLin = nonLinCtlCurve(nonLinCtl);
  \<close>
  (\<^verbatim>\<open>refreshMillis\<close> only sets the period of the timer and is left out.)
\<close>

definition main_init :: "anim_state option" where
  "main_init =
     do {
       let d = rnd64 (27 / 10);
       fr \<leftarrow> d2u (rnd64 (d * FRAMERATE));
       Some \<lparr>animDuration = d, nonLinCtl = 12, animFrames = fr, nonLin = nonLinCtlCurve 12,
             currGroupIdx = 0, currAnimFrame = 0\<rparr>
     }"

text \<open>
  The main loop runs one callback to completion for each event: the display callback for
  a redraw (the timer callback only asks for one), the special-key callback for a key. The
  escape key ends the process, and with it the sequence of events.
\<close>

datatype event = Redraw | Special special_key

fun dispatch :: "32 word \<Rightarrow> event \<Rightarrow> anim_state \<Rightarrow> anim_state option" where
  "dispatch NUM_GROUPS Redraw s = animDisplay NUM_GROUPS s"
| "dispatch NUM_GROUPS (Special k) s = animSpecialKeys k s"

fun run :: "32 word \<Rightarrow> event list \<Rightarrow> anim_state \<Rightarrow> anim_state option" where
  "run NUM_GROUPS [] s = Some s"
| "run NUM_GROUPS (e # es) s = dispatch NUM_GROUPS e s \<bind> run NUM_GROUPS es"

section \<open>The animation clock\<close>

lemma animDisplay_frame:
  assumes "currGroupIdx s < NUM_GROUPS" and "currAnimFrame s < animFrames s"
  shows "\<exists>s'. animDisplay NUM_GROUPS s = Some s' \<and>
           unat (currAnimFrame s') = (unat (currAnimFrame s) + 1) mod unat (animFrames s) \<and>
           (currAnimFrame s' = 0 \<longrightarrow> currGroupIdx s' = (currGroupIdx s + 1) mod NUM_GROUPS) \<and>
           (currAnimFrame s' \<noteq> 0 \<longrightarrow> currGroupIdx s' = currGroupIdx s)"
proof -
  let ?c = "currAnimFrame s" and ?F = "animFrames s"
  from assms(1) have N0: "NUM_GROUPS \<noteq> 0" and g: "\<not> NUM_GROUPS \<le> currGroupIdx s"
    by (auto simp add: word_not_simps(1))
  from assms(2) have F0: "?F \<noteq> 0"
    by (metis word_not_simps(1))
  from assms(2) have "unat ?c < unat ?F"
    by (simp add: word_less_nat_alt)
  moreover have "unat ?F < 2 ^ 32"
    using unsigned_less [of ?F] by simp
  ultimately have "unat ?c + 1 < 2 ^ 32"
    by linarith
  then have "unat (?c + 1) = unat ?c + 1"
    by (simp add: unat_word_ariths)
  then have "unat ((?c + 1) mod ?F) = (unat ?c + 1) mod unat ?F"
    by (simp add: unat_mod)
  with N0 g F0 show ?thesis
    by (simp add: animDisplay_def Let_def) (metis unat_0)
qed

lemma ticks_within_transition:
  assumes "currGroupIdx s < NUM_GROUPS"
    and "unat (currAnimFrame s) + k < unat (animFrames s)"
  shows "ticks NUM_GROUPS k s = Some (s\<lparr>currAnimFrame := currAnimFrame s + of_nat k\<rparr>)"
  using assms
proof (induction k arbitrary: s)
  case 0
  then show ?case by simp
next
  case (Suc k)
  let ?c = "currAnimFrame s" and ?F = "animFrames s"
  from Suc.prems(1) have N0: "NUM_GROUPS \<noteq> 0" and g: "\<not> NUM_GROUPS \<le> currGroupIdx s"
    by (auto simp add: word_not_simps(1))
  have lt: "unat ?c + 1 < unat ?F"
    using Suc.prems(2) by simp
  have "unat ?F < 2 ^ 32"
    using unsigned_less [of ?F] by simp
  with lt have u: "unat (?c + 1) = unat ?c + 1"
    by (simp add: unat_word_ariths)
  with lt have "?c + 1 < ?F"
    by (simp add: word_less_nat_alt)
  then have m: "(?c + 1) mod ?F = ?c + 1"
    by (simp add: word_mod_less_divisor mod_word_less)
  have nz: "?c + 1 \<noteq> 0"
    using u by (metis Suc_eq_plus1 nat.distinct(1) unat_0)
  have F0: "?F \<noteq> 0"
    using lt by (metis not_less_zero unat_0)
  let ?s1 = "s\<lparr>currAnimFrame := ?c + 1\<rparr>"
  have step: "animDisplay NUM_GROUPS s = Some ?s1"
    using N0 g F0 m nz by (simp add: animDisplay_def Let_def)
  have "currGroupIdx ?s1 < NUM_GROUPS"
    using Suc.prems(1) by simp
  moreover have "unat (currAnimFrame ?s1) + k < unat (animFrames ?s1)"
    using Suc.prems(2) u by simp
  ultimately have "ticks NUM_GROUPS k ?s1 = Some (?s1\<lparr>currAnimFrame := currAnimFrame ?s1 + of_nat k\<rparr>)"
    by (rule Suc.IH)
  with step show ?case
    by (simp add: add.assoc)
qed

lemma ticks_snoc:
  "ticks N (Suc k) s = (case ticks N k s of None \<Rightarrow> None | Some s' \<Rightarrow> animDisplay N s')"
proof (induction k arbitrary: s)
  case 0
  then show ?case by (simp split: option.split)
next
  case (Suc k)
  show ?case
  proof (cases "animDisplay N s")
    case None
    then show ?thesis by simp
  next
    case (Some s1)
    then have "ticks N (Suc (Suc k)) s = ticks N (Suc k) s1"
      by simp
    also have "\<dots> = (case ticks N k s1 of None \<Rightarrow> None | Some s' \<Rightarrow> animDisplay N s')"
      by (rule Suc.IH)
    also have "ticks N k s1 = ticks N (Suc k) s"
      using Some by simp
    finally show ?thesis .
  qed
qed

lemma last_tick:
  assumes "currGroupIdx s < NUM_GROUPS" and "animFrames s \<noteq> 0"
    and "currAnimFrame s + 1 = animFrames s"
  shows "animDisplay NUM_GROUPS s =
           Some (s\<lparr>currAnimFrame := 0, currGroupIdx := (currGroupIdx s + 1) mod NUM_GROUPS\<rparr>)"
proof -
  from assms(1) have "NUM_GROUPS \<noteq> 0" and "\<not> NUM_GROUPS \<le> currGroupIdx s"
    by (auto simp add: word_not_simps(1))
  with assms(2,3) show ?thesis
    by (simp add: animDisplay_def Let_def)
qed

lemma ticks_full_transition:
  assumes "currGroupIdx s < NUM_GROUPS" and "animFrames s \<noteq> 0" and "currAnimFrame s = 0"
  shows "ticks NUM_GROUPS (unat (animFrames s)) s =
           Some (s\<lparr>currAnimFrame := 0, currGroupIdx := (currGroupIdx s + 1) mod NUM_GROUPS\<rparr>)"
proof -
  let ?F = "animFrames s"
  from assms(2) have "unat ?F \<noteq> 0"
    by (simp add: unat_eq_0)
  then obtain k where k: "unat ?F = Suc k"
    by (cases "unat ?F") auto
  have "unat (currAnimFrame s) + k < unat ?F"
    using assms(3) k by simp
  from ticks_within_transition [OF assms(1) this]
  have pre: "ticks NUM_GROUPS k s = Some (s\<lparr>currAnimFrame := of_nat k\<rparr>)"
    using assms(3) by simp
  have "(of_nat k :: 32 word) + 1 = of_nat (unat ?F)"
    using k by simp
  then have "(of_nat k :: 32 word) + 1 = ?F"
    by simp
  then have "animDisplay NUM_GROUPS (s\<lparr>currAnimFrame := of_nat k\<rparr>) =
      Some (s\<lparr>currAnimFrame := 0, currGroupIdx := (currGroupIdx s + 1) mod NUM_GROUPS\<rparr>)"
    using last_tick [of "s\<lparr>currAnimFrame := of_nat k\<rparr>" NUM_GROUPS] assms(1,2) by simp
  with pre show ?thesis
    unfolding k ticks_snoc by simp
qed

lemma unat_next_group:
  assumes "g < (NUM_GROUPS :: 32 word)"
  shows "unat ((g + 1) mod NUM_GROUPS) = (unat g + 1) mod unat NUM_GROUPS"
proof -
  have "unat g < unat NUM_GROUPS"
    using assms by (simp add: word_less_nat_alt)
  moreover have "unat NUM_GROUPS < 2 ^ 32"
    using unsigned_less [of NUM_GROUPS] by simp
  ultimately have "unat (g + 1) = unat g + 1"
    by (simp add: unat_word_ariths)
  then show ?thesis
    by (simp add: unat_mod)
qed

text \<open>
  Claim C1. From the clock \<open>(currGroupIdx = g, currAnimFrame = 0)\<close> with \<open>g\<close> below
  \<^verbatim>\<open>NUM_GROUPS\<close> and \<open>animFrames = F \<ge> 1\<close>, \<open>F\<close> display ticks in a row all return, and
  leave the frame counter at 0 again and the group index at \<open>(g + 1) mod NUM_GROUPS\<close>, every
  other variable as it was. Each single tick taken with the frame counter below \<open>F\<close> (and
  the group index below \<^verbatim>\<open>NUM_GROUPS\<close>) moves the frame counter to
  \<open>(currAnimFrame + 1) mod F\<close>, and sets the group index to its successor exactly when the
  new frame counter is 0.
\<close>

theorem clock_full_transition:
  assumes "g < NUM_GROUPS" and "1 \<le> F"
    and "currGroupIdx s = g" and "currAnimFrame s = 0" and "animFrames s = F"
  shows "ticks NUM_GROUPS (unat F) s =
           Some (s\<lparr>currAnimFrame := 0, currGroupIdx := (g + 1) mod NUM_GROUPS\<rparr>) \<and>
         unat ((g + 1) mod NUM_GROUPS) = (unat g + 1) mod unat NUM_GROUPS \<and>
         (\<forall>t. animFrames t = F \<and> currAnimFrame t < F \<and> currGroupIdx t < NUM_GROUPS \<longrightarrow>
            (\<exists>t'. animDisplay NUM_GROUPS t = Some t' \<and>
               unat (currAnimFrame t') = (unat (currAnimFrame t) + 1) mod unat F \<and>
               (currAnimFrame t' = 0 \<longrightarrow> currGroupIdx t' = (currGroupIdx t + 1) mod NUM_GROUPS) \<and>
               (currAnimFrame t' \<noteq> 0 \<longrightarrow> currGroupIdx t' = currGroupIdx t)))"
proof -
  from assms(2) have "F \<noteq> 0"
    by auto
  with assms have "ticks NUM_GROUPS (unat F) s =
      Some (s\<lparr>currAnimFrame := 0, currGroupIdx := (g + 1) mod NUM_GROUPS\<rparr>)"
    using ticks_full_transition [of s NUM_GROUPS] by simp
  moreover note unat_next_group [OF assms(1)]
  moreover have "\<exists>t'. animDisplay NUM_GROUPS t = Some t' \<and>
               unat (currAnimFrame t') = (unat (currAnimFrame t) + 1) mod unat F \<and>
               (currAnimFrame t' = 0 \<longrightarrow> currGroupIdx t' = (currGroupIdx t + 1) mod NUM_GROUPS) \<and>
               (currAnimFrame t' \<noteq> 0 \<longrightarrow> currGroupIdx t' = currGroupIdx t)"
    if "animFrames t = F \<and> currAnimFrame t < F \<and> currGroupIdx t < NUM_GROUPS" for t
    using animDisplay_frame [of t NUM_GROUPS] that by simp
  ultimately show ?thesis
    by blast
qed

theorem clock_full_transition_witness:
  "ticks 5 3 \<lparr>animDuration = 1 / 20, nonLinCtl = 12, animFrames = 3, nonLin = 5,
              currGroupIdx = 4, currAnimFrame = 0\<rparr> =
     Some \<lparr>animDuration = 1 / 20, nonLinCtl = 12, animFrames = 3, nonLin = 5,
           currGroupIdx = 0, currAnimFrame = 0\<rparr>"
  using clock_full_transition [of 4 5 3
    "\<lparr>animDuration = 1 / 20, nonLinCtl = 12, animFrames = 3, nonLin = 5,
      currGroupIdx = 4, currAnimFrame = 0\<rparr>"]
  by simp

section \<open>The easing function and the control curve\<close>

lemma pow_pos: "0 < x \<Longrightarrow> pow x y = Some (x powr y)"
  by (simp add: pow_def)

lemma pow_zero: "0 < y \<Longrightarrow> pow 0 y = Some 0"
  by (simp add: pow_def)

lemma pow_nonneg: "0 \<le> x \<Longrightarrow> 0 < y \<Longrightarrow> pow x y = Some (x powr y)"
  by (cases "x = 0") (simp_all add: pow_def)

lemma nonLinCtlCurve_pow:
  "c \<noteq> - 1 \<Longrightarrow> pow 2 (of_int c / 2 - 2) = Some (nonLinCtlCurve c - 1)"
  by (simp add: pow_def nonLinCtlCurve_def)

lemma animEase_lower:
  assumes "0 \<le> t" and "t < 1 / 2" and "0 < n"
  shows "animEase t n = Some (1 / 2 * (2 * t) powr n)"
  using assms by (simp add: animEase_def pow_nonneg)

lemma animEase_upper:
  assumes "1 / 2 \<le> t" and "t \<le> 1" and "0 < n"
  shows "animEase t n = Some (1 - 1 / 2 * (2 * (1 - t)) powr n)"
  using assms by (simp add: animEase_def pow_nonneg)

text \<open>
  Claim C3. For every exponent of at least 1 the easing function takes the value 0 at 0,
  1 at 1 and one half at one half; with the exponent 1 it returns its argument, for every
  argument between 0 and 1.
\<close>

theorem animEase_boundary:
  assumes "1 \<le> n"
  shows "animEase 0 n = Some 0 \<and> animEase 1 n = Some 1 \<and>
         animEase (1 / 2) n = Some (1 / 2) \<and>
         (\<forall>t. 0 \<le> t \<and> t \<le> 1 \<longrightarrow> animEase t 1 = Some t)"
proof -
  from assms have n: "0 < n"
    by simp
  have "animEase 0 n = Some 0"
    using animEase_lower [of 0 n] n by simp
  moreover have "animEase 1 n = Some 1"
    using animEase_upper [of 1 n] n by simp
  moreover have "animEase (1 / 2) n = Some (1 / 2)"
    using animEase_upper [of "1 / 2" n] n by simp
  moreover have "animEase t 1 = Some t" if "0 \<le> t \<and> t \<le> 1" for t
  proof (cases "t < 1 / 2")
    case True
    with that show ?thesis
      using animEase_lower [of t 1] by (cases "t = 0") simp_all
  next
    case False
    with that show ?thesis
      using animEase_upper [of t 1] by (cases "t = 1") (simp_all add: field_simps)
  qed
  ultimately show ?thesis
    by blast
qed

theorem animEase_boundary_witness:
  "animEase 0 3 = Some 0 \<and> animEase 1 3 = Some 1 \<and> animEase (1 / 2) 3 = Some (1 / 2) \<and>
   animEase (1 / 4) 1 = Some (1 / 4)"
  using animEase_boundary [of 3] by simp

text \<open>
  Claim C2. For every exponent of at least 1 the easing function is monotonic
  non-decreasing on the interval from 0 to 1: it has a finite value at both of two
  arguments \<open>t1 \<le> t2\<close> of the interval, and the value at \<open>t1\<close> is at most the one at \<open>t2\<close>.
\<close>

theorem animEase_mono:
  assumes "1 \<le> n" and "0 \<le> t1" and "t1 \<le> t2" and "t2 \<le> 1"
  shows "\<exists>v1 v2. animEase t1 n = Some v1 \<and> animEase t2 n = Some v2 \<and> v1 \<le> v2"
proof -
  from assms(1) have n: "0 < n" "0 \<le> n"
    by simp_all
  consider "t2 < 1 / 2" | "1 / 2 \<le> t1" | "t1 < 1 / 2" "1 / 2 \<le> t2"
    using assms(3) by linarith
  then show ?thesis
  proof cases
    case 1
    then have "t1 < 1 / 2"
      using assms(3) by simp
    then have e1: "animEase t1 n = Some (1 / 2 * (2 * t1) powr n)"
      using assms(2) n by (intro animEase_lower)
    have e2: "animEase t2 n = Some (1 / 2 * (2 * t2) powr n)"
      using 1 assms(2,3) n by (intro animEase_lower) simp_all
    have "(2 * t1) powr n \<le> (2 * t2) powr n"
      using assms(2,3) n by (intro powr_mono2) simp_all
    then have "1 / 2 * (2 * t1) powr n \<le> 1 / 2 * (2 * t2) powr n"
      by simp
    with e1 e2 show ?thesis
      by blast
  next
    case 2
    then have "1 / 2 \<le> t2"
      using assms(3) by simp
    then have e2: "animEase t2 n = Some (1 - 1 / 2 * (2 * (1 - t2)) powr n)"
      using assms(4) n by (intro animEase_upper)
    have e1: "animEase t1 n = Some (1 - 1 / 2 * (2 * (1 - t1)) powr n)"
      using 2 assms(3,4) n by (intro animEase_upper) simp_all
    have "(2 * (1 - t2)) powr n \<le> (2 * (1 - t1)) powr n"
      using assms(3,4) n by (intro powr_mono2) simp_all
    then have "1 - 1 / 2 * (2 * (1 - t1)) powr n \<le> 1 - 1 / 2 * (2 * (1 - t2)) powr n"
      by simp
    with e1 e2 show ?thesis
      by blast
  next
    case 3
    have e1: "animEase t1 n = Some (1 / 2 * (2 * t1) powr n)"
      using 3(1) assms(2) n by (intro animEase_lower)
    have e2: "animEase t2 n = Some (1 - 1 / 2 * (2 * (1 - t2)) powr n)"
      using 3(2) assms(4) n by (intro animEase_upper)
    have "(2 * t1) powr n \<le> 1 powr n"
      using assms(2) 3(1) n by (intro powr_mono2) simp_all
    moreover have "(2 * (1 - t2)) powr n \<le> 1 powr n"
      using assms(4) 3(2) n by (intro powr_mono2) simp_all
    ultimately have "1 / 2 * (2 * t1) powr n \<le> 1 - 1 / 2 * (2 * (1 - t2)) powr n"
      by simp
    with e1 e2 show ?thesis
      by blast
  qed
qed

theorem animEase_mono_witness:
  "\<exists>v1 v2. animEase (1 / 4) 2 = Some v1 \<and> animEase (3 / 4) 2 = Some v2 \<and> v1 \<le> v2"
  using animEase_mono [of 2 "1 / 4" "3 / 4"] by simp

text \<open>
  Claim C7. The control curve is 1 at -1, it is \<open>2\<^sup>c\<^sup>/\<^sup>2\<^sup>-\<^sup>2 + 1\<close> at every integer \<open>c\<close> from
  0 to 21, and it is strictly increasing on the integers from -1 to 21.
\<close>

theorem nonLinCtlCurve_increasing:
  "nonLinCtlCurve (- 1) = 1 \<and>
   (\<forall>c. 0 \<le> c \<and> c \<le> 21 \<longrightarrow> nonLinCtlCurve c = 2 powr (of_int c / 2 - 2) + 1) \<and>
   (\<forall>c1 c2. - 1 \<le> c1 \<and> c1 < c2 \<and> c2 \<le> 21 \<longrightarrow> nonLinCtlCurve c1 < nonLinCtlCurve c2)"
proof -
  have "nonLinCtlCurve c1 < nonLinCtlCurve c2" if "- 1 \<le> c1 \<and> c1 < c2 \<and> c2 \<le> 21" for c1 c2
  proof (cases "c1 = - 1")
    case True
    with that have "c2 \<noteq> - 1"
      by simp
    then show ?thesis
      using True by (simp add: nonLinCtlCurve_def)
  next
    case False
    with that have "c2 \<noteq> - 1"
      by simp
    moreover have "(2::real) powr (of_int c1 / 2 - 2) < 2 powr (of_int c2 / 2 - 2)"
      using that by simp
    ultimately show ?thesis
      using False by (simp add: nonLinCtlCurve_def)
  qed
  then show ?thesis
    by (simp add: nonLinCtlCurve_def)
qed

theorem nonLinCtlCurve_increasing_witness:
  "nonLinCtlCurve (- 1) < nonLinCtlCurve 0 \<and> nonLinCtlCurve 4 = 2"
proof -
  from nonLinCtlCurve_increasing
  have "- 1 \<le> (- 1 :: int) \<and> (- 1 :: int) < 0 \<and> (0 :: int) \<le> 21 \<longrightarrow>
          nonLinCtlCurve (- 1) < nonLinCtlCurve 0"
    and "(0 :: int) \<le> 4 \<and> (4 :: int) \<le> 21 \<longrightarrow> nonLinCtlCurve 4 = 2 powr (of_int 4 / 2 - 2) + 1"
    by blast+
  then show ?thesis
    by simp
qed

section \<open>Rounding to binary64\<close>

lemma ilog2_bounds:
  "0 < x \<Longrightarrow> 2 powi ilog2 x \<le> x \<and> x < 2 powi (ilog2 x + 1)"
proof (induction x rule: ilog2.induct)
  case (1 x)
  show ?case
  proof (cases "x < 1")
    case True
    with "1.prems" have e: "ilog2 x = ilog2 (2 * x) - 1"
      by (subst ilog2.simps) simp
    from "1.IH"(1) True "1.prems"
    have "2 powi ilog2 (2 * x) \<le> 2 * x \<and> 2 * x < 2 powi (ilog2 (2 * x) + 1)"
      by simp
    then show ?thesis
      unfolding e by (simp add: power_int_diff power_int_add)
  next
    case False
    show ?thesis
    proof (cases "2 \<le> x")
      case True
      with False "1.prems" have e: "ilog2 x = ilog2 (x / 2) + 1"
        by (subst ilog2.simps) simp
      from "1.IH"(2) True False "1.prems"
      have "2 powi ilog2 (x / 2) \<le> x / 2 \<and> x / 2 < 2 powi (ilog2 (x / 2) + 1)"
        by simp
      then show ?thesis
        unfolding e by (simp add: power_int_add)
    next
      case b: False
      with False "1.prems" have "ilog2 x = 0"
        by (subst ilog2.simps) simp
      with False b show ?thesis
        by simp
    qed
  qed
qed

lemma round_even_error: "\<bar>of_int (round_even y) - y\<bar> \<le> 1 / 2"
proof -
  have "of_int \<lfloor>y\<rfloor> \<le> y" "y < of_int \<lfloor>y\<rfloor> + 1"
    by linarith+
  then show ?thesis
    by (auto simp add: round_even_def Let_def)
qed

lemma rnd64_error:
  assumes "2 powi (- 1022) \<le> \<bar>x\<bar>"
  shows "\<bar>rnd64 x - x\<bar> \<le> 2 powi (- 53) * \<bar>x\<bar>"
proof -
  have pos: "0 < \<bar>x\<bar>"
    using assms by (smt (verit) zero_less_power_int)
  define e where "e = ilog2 \<bar>x\<bar>"
  from ilog2_bounds [OF pos] have lo: "2 powi e \<le> \<bar>x\<bar>" and hi: "\<bar>x\<bar> < 2 powi (e + 1)"
    by (simp_all add: e_def)
  from assms hi have "(2::real) powi (- 1022) < 2 powi (e + 1)"
    by linarith
  then have "- 1022 < e + 1"
    using power_int_increasing [of "e + 1" "- 1022" "2::real"] by (cases "- 1022 < e + 1") simp_all
  then have m: "max (e - 52) (- 1074) = e - 52"
    by simp
  define u :: real where "u = 2 powi (e - 52)"
  have u0: "0 < u"
    by (simp add: u_def)
  have r: "rnd64 x = of_int (round_even (x / u)) * u"
    using pos m by (simp add: rnd64_def Let_def e_def [symmetric] u_def)
  have "rnd64 x - x = (of_int (round_even (x / u)) - x / u) * u"
    using u0 by (simp add: r left_diff_distrib)
  then have "\<bar>rnd64 x - x\<bar> = \<bar>of_int (round_even (x / u)) - x / u\<bar> * u"
    using u0 by (simp add: abs_mult)
  also have "\<dots> \<le> 1 / 2 * u"
    using round_even_error [of "x / u"] u0 by (intro mult_right_mono) simp_all
  also have "\<dots> = 2 powi (- 53) * 2 powi e"
    by (simp add: u_def power_int_diff power_int_minus)
  also have "\<dots> \<le> 2 powi (- 53) * \<bar>x\<bar>"
    using lo by (intro mult_left_mono) simp_all
  finally show ?thesis .
qed

lemma u2d_bounds: "0 \<le> u2d w" "u2d w < 2 ^ 32"
proof -
  show "0 \<le> u2d w"
    by (simp only: u2d_def of_nat_0_le_iff)
  have "unat w < 2 ^ 32"
    using unsigned_less [of w] by simp
  then have "real (unat w) < real (2 ^ 32)"
    by (rule iffD2 [OF of_nat_less_iff])
  then show "u2d w < 2 ^ 32"
    by (simp only: u2d_def of_nat_power of_nat_numeral)
qed

lemma u2d_ge_1: "w \<noteq> 0 \<Longrightarrow> 1 \<le> u2d w"
proof -
  assume "w \<noteq> 0"
  then have "unat w \<noteq> 0"
    by (simp add: unat_eq_0)
  then have "1 \<le> unat w"
    by simp
  then have "real 1 \<le> real (unat w)"
    by (rule iffD2 [OF of_nat_le_iff])
  then show ?thesis
    by (simp only: u2d_def of_nat_1)
qed

lemma d2u_Some:
  assumes "d2u p = Some w" and "0 \<le> p"
  shows "u2d w = of_int \<lfloor>p\<rfloor>" and "p < 2 ^ 32"
proof -
  from assms(1) show p: "p < 2 ^ 32"
    by (simp add: d2u_def split: if_splits)
  from assms have w: "w = word_of_int \<lfloor>p\<rfloor>"
    by (simp add: d2u_def split: if_splits)
  have f0: "0 \<le> \<lfloor>p\<rfloor>"
    using assms(2) by simp
  have "\<lfloor>p\<rfloor> < 2 ^ 32"
    using p by (simp add: floor_less_iff)
  with f0 have "uint (word_of_int \<lfloor>p\<rfloor> :: 32 word) = \<lfloor>p\<rfloor>"
    by (simp add: uint_word_of_int take_bit_int_eq_self)
  then have "int (unat w) = \<lfloor>p\<rfloor>"
    by (simp add: w)
  then have "real_of_int (int (unat w)) = of_int \<lfloor>p\<rfloor>"
    by (simp only:)
  then show "u2d w = of_int \<lfloor>p\<rfloor>"
    by (simp only: u2d_def of_int_of_nat_eq)
qed

lemma rnd64_rel:
  assumes "2 powi (- 1022) \<le> x"
  shows "(1 - 2 powi (- 53)) * x \<le> rnd64 x" and "rnd64 x \<le> (1 + 2 powi (- 53)) * x"
proof -
  have "0 < x"
    using assms by (smt (verit) zero_less_power_int)
  define eps :: real where "eps = 2 powi (- 53)"
  from \<open>0 < x\<close> rnd64_error [of x] assms have "\<bar>rnd64 x - x\<bar> \<le> eps * x"
    by (simp add: eps_def)
  then have "(1 - eps) * x \<le> rnd64 x" and "rnd64 x \<le> (1 + eps) * x"
    by (simp_all add: algebra_simps abs_le_iff)
  then show "(1 - 2 powi (- 53)) * x \<le> rnd64 x" and "rnd64 x \<le> (1 + 2 powi (- 53)) * x"
    by (simp_all only: eps_def)
qed

section \<open>The special keys\<close>

lemmas binary64_eval = rnd64_def ilog2.simps round_even_def Let_def power_int_def power_one_over

lemma rnd64_0: "rnd64 0 = 0"
  by (simp add: rnd64_def)

lemma rescale_value_bounds:
  fixes c old new :: "32 word"
  assumes "old \<noteq> 0"
  defines "p \<equiv> rnd64 (rnd64 (u2d c / u2d old) * u2d new)"
  shows "(1 - 2 powi (- 53))\<^sup>2 * (u2d c / u2d old * u2d new) \<le> p"
    and "p \<le> (1 + 2 powi (- 53))\<^sup>2 * (u2d c / u2d old * u2d new)"
proof -
  define eps :: real where "eps = 2 powi (- 53)"
  have eps: "0 < eps" "eps \<le> 1 / 2"
    by (simp_all add: eps_def power_int_minus field_simps)
  define x where "x = u2d c / u2d old"
  define q where "q = rnd64 x"
  have p: "p = rnd64 (q * u2d new)"
    by (simp add: p_def q_def x_def)
  have "(1 - eps)\<^sup>2 * (x * u2d new) \<le> p \<and> p \<le> (1 + eps)\<^sup>2 * (x * u2d new)"
  proof (cases "c = 0 \<or> new = 0")
    case True
    then have "x * u2d new = 0" and "q * u2d new = 0"
      by (auto simp add: x_def q_def u2d_def rnd64_0)
    then have "x * u2d new = 0" and "p = 0"
      by (simp_all only: p rnd64_0)
    then show ?thesis
      by (simp only: mult_zero_right order_refl simp_thms)
  next
    case False
    have n1: "1 \<le> u2d new"
      using False by (intro u2d_ge_1) simp
    have "1 \<le> u2d c" and "0 < u2d old" and "u2d old < 2 ^ 32"
      using False assms(1) u2d_ge_1 [of c] u2d_ge_1 [of old] u2d_bounds(2) [of old] by simp_all
    then have "1 / 2 ^ 32 \<le> x"
      unfolding x_def by (intro frac_le) simp_all
    then have x32: "2 powi (- 32) \<le> x"
      by (simp add: power_int_minus field_simps)
    have tiny: "(2::real) powi (- 1022) \<le> 2 powi (- 33)" "(2::real) powi (- 33) \<le> 2 powi (- 32)"
      by (rule power_int_increasing; simp)+
    from rnd64_rel [of x] x32 tiny
    have q: "(1 - eps) * x \<le> q" "q \<le> (1 + eps) * x"
      by (simp_all add: q_def eps_def)
    have "1 / 2 * 2 powi (- 32) \<le> (1 - eps) * x"
      using eps x32 by (intro mult_mono) simp_all
    moreover have "(2::real) powi (- 33) = 1 / 2 * 2 powi (- 32)"
      by (simp add: power_int_minus)
    ultimately have q33: "2 powi (- 33) \<le> q"
      using q(1) by linarith
    then have q0: "0 < q"
      by (smt (verit) zero_less_power_int)
    have "q * 1 \<le> q * u2d new"
      using n1 q0 by (intro mult_left_mono) simp_all
    with q33 tiny have "2 powi (- 1022) \<le> q * u2d new"
      by linarith
    from rnd64_rel [OF this]
    have r: "(1 - eps) * (q * u2d new) \<le> p" "p \<le> (1 + eps) * (q * u2d new)"
      by (simp_all add: p eps_def)
    have "(1 - eps) * ((1 - eps) * x * u2d new) \<le> (1 - eps) * (q * u2d new)"
      using q(1) eps n1 by (intro mult_left_mono mult_right_mono) simp_all
    moreover have "(1 + eps) * (q * u2d new) \<le> (1 + eps) * ((1 + eps) * x * u2d new)"
      using q(2) eps n1 by (intro mult_left_mono mult_right_mono) simp_all
    ultimately show ?thesis
      using r by (simp add: power2_eq_square algebra_simps)
  qed
  then show "(1 - 2 powi (- 53))\<^sup>2 * (u2d c / u2d old * u2d new) \<le> p"
    and "p \<le> (1 + 2 powi (- 53))\<^sup>2 * (u2d c / u2d old * u2d new)"
    by (simp_all only: eps_def x_def)
qed

lemma rescale_bounds:
  assumes "rescale c old new = Some c'"
  shows "old \<noteq> 0"
    and "(1 - 2 powi (- 53))\<^sup>2 * (u2d c / u2d old * u2d new) - 1 < u2d c'"
    and "u2d c' \<le> (1 + 2 powi (- 53))\<^sup>2 * (u2d c / u2d old * u2d new)"
proof -
  from assms show old: "old \<noteq> 0"
    by (auto simp add: rescale_def split: if_splits)
  define p where "p = rnd64 (rnd64 (u2d c / u2d old) * u2d new)"
  from assms old have d: "d2u p = Some c'"
    by (simp add: rescale_def p_def)
  note b = rescale_value_bounds [OF old, of c new, folded p_def]
  have "0 \<le> u2d c / u2d old * u2d new"
    using u2d_bounds(1) by simp
  then have "0 \<le> (1 - 2 powi (- 53))\<^sup>2 * (u2d c / u2d old * u2d new)"
    by (rule mult_nonneg_nonneg [OF zero_le_power2])
  with b(1) have p0: "0 \<le> p"
    by linarith
  from d2u_Some(1) [OF d p0] have c': "u2d c' = of_int \<lfloor>p\<rfloor>" .
  have "p - 1 < of_int \<lfloor>p\<rfloor>" and "of_int \<lfloor>p\<rfloor> \<le> p"
    by linarith+
  with b c'
  show "(1 - 2 powi (- 53))\<^sup>2 * (u2d c / u2d old * u2d new) - 1 < u2d c'"
    and "u2d c' \<le> (1 + 2 powi (- 53))\<^sup>2 * (u2d c / u2d old * u2d new)"
    by linarith+
qed

lemma rescale_27_54_60: "rescale 27 54 60 = Some 30"
  by (simp add: rescale_def d2u_def u2d_def binary64_eval)

lemma duration_key_Some:
  assumes "k = GLUT_KEY_LEFT \<or> k = GLUT_KEY_RIGHT \<and> DURATION_CTL_LO < animDuration s"
    and "animSpecialKeys k s = Some s'"
  shows "rescale (currAnimFrame s) (animFrames s) (animFrames s') = Some (currAnimFrame s')"
    and "animDuration s' =
           rnd64 (if k = GLUT_KEY_LEFT then animDuration s + DURATION_CTL_DELTA
                  else animDuration s - DURATION_CTL_DELTA)"
    and "d2u (rnd64 (animDuration s' * FRAMERATE)) = Some (animFrames s')"
  using assms by (auto simp add: Let_def split: Option.bind_splits)

lemma u2d_le_iff: "u2d a \<le> u2d b \<longleftrightarrow> a \<le> b"
  by (simp only: u2d_def of_nat_le_iff word_le_nat_alt)

lemma u2d_less_iff: "u2d a < u2d b \<longleftrightarrow> a < b"
  by (simp only: u2d_def of_nat_less_iff word_less_nat_alt)

lemma u2d_le_max: "u2d w \<le> 2 ^ 32 - 1"
proof -
  have "unat w < 2 ^ 32"
    using unsigned_less [of w] by simp
  then have "unat w \<le> 2 ^ 32 - 1"
    by simp
  then have "real (unat w) \<le> real (2 ^ 32 - 1)"
    by (rule iffD2 [OF of_nat_le_iff])
  then show ?thesis
    by (simp add: u2d_def)
qed

lemma rescale_total:
  assumes "old \<noteq> 0" and "c \<le> old"
  shows "\<exists>c'. rescale c old new = Some c'"
proof -
  define p where "p = rnd64 (rnd64 (u2d c / u2d old) * u2d new)"
  define x where "x = u2d c / u2d old"
  note b = rescale_value_bounds [OF assms(1), of c new, folded p_def x_def]
  have old: "0 < u2d old"
    using u2d_ge_1 [OF assms(1)] by simp
  have x: "0 \<le> x" "x \<le> 1"
    using old u2d_bounds(1) [of c] assms(2) by (simp_all add: x_def u2d_le_iff)
  have n: "0 \<le> u2d new" "u2d new \<le> 2 ^ 32 - 1"
    by (rule u2d_bounds(1), rule u2d_le_max)
  have xn: "0 \<le> x * u2d new" "x * u2d new \<le> 2 ^ 32 - 1"
    using x n mult_mono [of x 1 "u2d new" "2 ^ 32 - 1"] by simp_all
  have "0 \<le> (1 - 2 powi (- 53))\<^sup>2 * (x * u2d new)"
    using xn(1) by (rule mult_nonneg_nonneg [OF zero_le_power2])
  with b(1) have p0: "- 1 < p"
    by linarith
  have "(1 + 2 powi (- 53))\<^sup>2 * (x * u2d new) \<le> (1 + 2 powi (- 53))\<^sup>2 * (2 ^ 32 - 1)"
    using xn(2) by (intro mult_left_mono) simp_all
  also have "\<dots> < (2 ^ 32 :: real)"
    by (simp add: power_int_minus power2_eq_square field_simps)
  finally have "p < 2 ^ 32"
    using b(2) by linarith
  with p0 assms(1) show ?thesis
    by (simp add: rescale_def d2u_def p_def)
qed

lemma rescale_less:
  assumes "rescale c old new = Some c'" and "c < old" and "new \<noteq> 0"
  shows "c' < new"
proof -
  define x where "x = u2d c / u2d old"
  note b = rescale_bounds [OF assms(1), folded x_def]
  have o: "1 \<le> u2d old" "u2d old < 2 ^ 32"
    using u2d_ge_1 [OF b(1)] u2d_bounds(2) by simp_all
  have "unat c < unat old"
    using assms(2) by (simp add: word_less_nat_alt)
  then have "unat c + 1 \<le> unat old"
    by simp
  then have "real (unat c + 1) \<le> real (unat old)"
    by (rule iffD2 [OF of_nat_le_iff])
  then have "u2d c \<le> u2d old - 1"
    by (simp add: u2d_def)
  then have "x \<le> (u2d old - 1) / u2d old"
    using o unfolding x_def by (intro divide_right_mono) simp_all
  also have "\<dots> = 1 - 1 / u2d old"
    using o by (simp add: field_simps)
  also have "\<dots> \<le> 1 - 1 / 2 ^ 32"
    using o by (simp add: field_simps)
  finally have x: "x \<le> 1 - 1 / 2 ^ 32" .
  have x0: "0 \<le> x"
    using u2d_bounds(1) by (simp add: x_def)
  have n: "1 \<le> u2d new"
    using assms(3) by (rule u2d_ge_1)
  have "(1 + 2 powi (- 53))\<^sup>2 * x \<le> (1 + 2 powi (- 53))\<^sup>2 * (1 - 1 / 2 ^ 32)"
    using x by (intro mult_left_mono) simp_all
  also have "\<dots> < (1 :: real)"
    by (simp add: power_int_minus power2_eq_square field_simps)
  finally have "(1 + 2 powi (- 53))\<^sup>2 * x * u2d new < 1 * u2d new"
    using n by (intro mult_strict_right_mono) simp_all
  with b(3) have "u2d c' < u2d new"
    by (simp add: mult.assoc)
  then show ?thesis
    by (simp only: u2d_less_iff)
qed

lemma duration_key_total:
  assumes "k = GLUT_KEY_LEFT \<or> k = GLUT_KEY_RIGHT \<and> DURATION_CTL_LO < animDuration s"
    and "animFrames s \<noteq> 0" and "currAnimFrame s \<le> animFrames s"
    and "d2u (rnd64 (rnd64 (if k = GLUT_KEY_LEFT then animDuration s + DURATION_CTL_DELTA
                              else animDuration s - DURATION_CTL_DELTA) * FRAMERATE)) = Some fr"
  shows "\<exists>s'. animSpecialKeys k s = Some s'"
proof -
  from rescale_total [OF assms(2,3), of fr]
  obtain c' where "rescale (currAnimFrame s) (animFrames s) fr = Some c'"
    by blast
  with assms(1,4) show ?thesis
    by (auto simp add: Let_def)
qed

text \<open>
  Claim C4. When a duration key takes effect (the left key, or the right key with the
  duration above the floor) and changes the frame count from \<open>oldAnimFrames\<close> to the new
  \<open>animFrames\<close>, the old frame count is not 0 and the new frame index is the value of
  \<^verbatim>\<open>currAnimFrame / (double) oldAnimFrames * animFrames\<close>: the binary64 quotient times the
  new frame count, rounded, without its fraction. It keeps the relative position: it is
  at most the exact \<open>c / oldAnimFrames * animFrames\<close> and less than one frame below it, up
  to the relative error \<open>(1 \<plusminus> 2\<^sup>-\<^sup>5\<^sup>3)\<^sup>2\<close> of the two roundings, and a frame index below
  the old frame count becomes one below the new frame count if that is at least 1. The
  handler returns whenever the old frame count is at least 1, the frame index is at most
  the old frame count, and the new frame count is a value of \<^verbatim>\<open>unsigned int\<close>. With the
  frame counts 54 and 60, frame 27 becomes frame 30.
\<close>

theorem duration_key_rescale:
  assumes "k = GLUT_KEY_LEFT \<or> k = GLUT_KEY_RIGHT \<and> DURATION_CTL_LO < animDuration s"
    and "c = currAnimFrame s" and "oldAnimFrames = animFrames s"
  shows
    "(\<forall>s'. animSpecialKeys k s = Some s' \<longrightarrow>
        oldAnimFrames \<noteq> 0 \<and>
        d2u (rnd64 (rnd64 (u2d c / u2d oldAnimFrames) * u2d (animFrames s'))) =
          Some (currAnimFrame s') \<and>
        (1 - 2 powi (- 53))\<^sup>2 * (u2d c / u2d oldAnimFrames * u2d (animFrames s')) - 1
          < u2d (currAnimFrame s') \<and>
        u2d (currAnimFrame s')
          \<le> (1 + 2 powi (- 53))\<^sup>2 * (u2d c / u2d oldAnimFrames * u2d (animFrames s')) \<and>
        (c < oldAnimFrames \<and> animFrames s' \<noteq> 0 \<longrightarrow> currAnimFrame s' < animFrames s')) \<and>
     (oldAnimFrames \<noteq> 0 \<and> c \<le> oldAnimFrames \<and>
      d2u (rnd64 (rnd64 (if k = GLUT_KEY_LEFT then animDuration s + DURATION_CTL_DELTA
                         else animDuration s - DURATION_CTL_DELTA) * FRAMERATE)) \<noteq> None \<longrightarrow>
      animSpecialKeys k s \<noteq> None) \<and>
     rescale 27 54 60 = Some 30"
proof (intro conjI allI impI)
  fix s'
  assume s': "animSpecialKeys k s = Some s'"
  from duration_key_Some(1) [OF assms(1) s']
  have r: "rescale c oldAnimFrames (animFrames s') = Some (currAnimFrame s')"
    by (simp add: assms(2,3))
  note b = rescale_bounds [OF r]
  show "oldAnimFrames \<noteq> 0"
    by (rule b(1))
  show "d2u (rnd64 (rnd64 (u2d c / u2d oldAnimFrames) * u2d (animFrames s'))) =
          Some (currAnimFrame s')"
    using r b(1) by (simp add: rescale_def)
  show "(1 - 2 powi (- 53))\<^sup>2 * (u2d c / u2d oldAnimFrames * u2d (animFrames s')) - 1
          < u2d (currAnimFrame s')"
    by (rule b(2))
  show "u2d (currAnimFrame s')
          \<le> (1 + 2 powi (- 53))\<^sup>2 * (u2d c / u2d oldAnimFrames * u2d (animFrames s'))"
    by (rule b(3))
  show "currAnimFrame s' < animFrames s'" if "c < oldAnimFrames \<and> animFrames s' \<noteq> 0"
    using rescale_less [OF r] that by simp
next
  assume a: "oldAnimFrames \<noteq> 0 \<and> c \<le> oldAnimFrames \<and>
      d2u (rnd64 (rnd64 (if k = GLUT_KEY_LEFT then animDuration s + DURATION_CTL_DELTA
                         else animDuration s - DURATION_CTL_DELTA) * FRAMERATE)) \<noteq> None"
  then obtain fr where
    "d2u (rnd64 (rnd64 (if k = GLUT_KEY_LEFT then animDuration s + DURATION_CTL_DELTA
                         else animDuration s - DURATION_CTL_DELTA) * FRAMERATE)) = Some fr"
    by blast
  from duration_key_total [OF assms(1) _ _ this] a
  show "animSpecialKeys k s \<noteq> None"
    by (auto simp add: assms(2,3))
next
  show "rescale 27 54 60 = Some 30"
    by (rule rescale_27_54_60)
qed

theorem duration_key_rescale_witness:
  "animSpecialKeys GLUT_KEY_LEFT
     \<lparr>animDuration = 1 / 2, nonLinCtl = 12, animFrames = 30, nonLin = 17,
      currGroupIdx = 0, currAnimFrame = 15\<rparr> =
   Some \<lparr>animDuration = 2476979795053773 / 4503599627370496, nonLinCtl = 12, animFrames = 33,
         nonLin = 17, currGroupIdx = 0, currAnimFrame = 16\<rparr> \<and>
   d2u (rnd64 (rnd64 (u2d 15 / u2d 30) * u2d 33)) = Some 16 \<and> (16 :: 32 word) < 33"
proof -
  let ?a = "\<lparr>animDuration = 1 / 2, nonLinCtl = 12, animFrames = 30, nonLin = 17,
      currGroupIdx = 0, currAnimFrame = 15 :: 32 word\<rparr>"
  let ?b = "\<lparr>animDuration = 2476979795053773 / 4503599627370496, nonLinCtl = 12,
      animFrames = 33, nonLin = 17, currGroupIdx = 0, currAnimFrame = 16 :: 32 word\<rparr>"
  have e: "animSpecialKeys GLUT_KEY_LEFT ?a = Some ?b"
    by (simp add: DURATION_CTL_DELTA_def FRAMERATE_def rescale_def d2u_def u2d_def binary64_eval)
  have c: "15 = currAnimFrame ?a" and old: "30 = animFrames ?a"
    by simp_all
  from duration_key_rescale [OF disjI1 [OF refl] c old]
  have "\<forall>s'. animSpecialKeys GLUT_KEY_LEFT ?a = Some s' \<longrightarrow>
        (30 :: 32 word) \<noteq> 0 \<and>
        d2u (rnd64 (rnd64 (u2d 15 / u2d 30) * u2d (animFrames s'))) = Some (currAnimFrame s') \<and>
        (1 - 2 powi (- 53))\<^sup>2 * (u2d 15 / u2d 30 * u2d (animFrames s')) - 1
          < u2d (currAnimFrame s') \<and>
        u2d (currAnimFrame s') \<le> (1 + 2 powi (- 53))\<^sup>2 * (u2d 15 / u2d 30 * u2d (animFrames s')) \<and>
        ((15 :: 32 word) < 30 \<and> animFrames s' \<noteq> 0 \<longrightarrow> currAnimFrame s' < animFrames s')"
    by (rule conjunct1)
  from this [rule_format, OF e] e show ?thesis
    by simp
qed

lemma animSpecialKeys_nonLinCtl:
  assumes "animSpecialKeys k s = Some s'" and "- 1 \<le> nonLinCtl s" and "nonLinCtl s \<le> 21"
  shows "- 1 \<le> nonLinCtl s' \<and> nonLinCtl s' \<le> 21"
  using assms
  by (cases k)
    (auto simp add: NON_LIN_CTL_HI_def NON_LIN_CTL_LO_def Let_def
      split: if_splits Option.bind_splits)

lemma animDisplay_nonLinCtl:
  assumes "animDisplay N s = Some s'"
  shows "nonLinCtl s' = nonLinCtl s"
  using assms by (auto simp add: animDisplay_def Let_def split: if_splits)

lemma dispatch_nonLinCtl:
  assumes "dispatch N e s = Some s'" and "- 1 \<le> nonLinCtl s" and "nonLinCtl s \<le> 21"
  shows "- 1 \<le> nonLinCtl s' \<and> nonLinCtl s' \<le> 21"
  using assms animSpecialKeys_nonLinCtl animDisplay_nonLinCtl
  by (cases e) auto

lemma run_nonLinCtl:
  assumes "run N es s = Some s'" and "- 1 \<le> nonLinCtl s" and "nonLinCtl s \<le> 21"
  shows "- 1 \<le> nonLinCtl s' \<and> nonLinCtl s' \<le> 21"
  using assms
proof (induction es arbitrary: s)
  case Nil
  then show ?case by simp
next
  case (Cons e es)
  from Cons.prems(1) obtain s1 where s1: "dispatch N e s = Some s1" and r: "run N es s1 = Some s'"
    by (auto split: Option.bind_splits)
  from dispatch_nonLinCtl [OF s1 Cons.prems(2,3)] Cons.IH [OF r] show ?case
    by simp
qed

lemma main_init_nonLinCtl:
  assumes "main_init = Some s"
  shows "nonLinCtl s = 12"
  using assms by (auto simp add: main_init_def Let_def split: Option.bind_splits)

text \<open>
  Claim C9. In every state that the event loop reaches from the initial one, \<open>nonLinCtl\<close>
  is between -1 and 21. The up key at 21 and the down key at -1 change nothing. Below 21
  the up key adds 1 to \<open>nonLinCtl\<close>, above -1 the down key subtracts 1, and both set
  \<open>nonLin\<close> to the control curve at the new \<open>nonLinCtl\<close>.
\<close>

theorem nonLinCtl_bounds:
  "(\<forall>s0 N es s. main_init = Some s0 \<and> run N es s0 = Some s \<longrightarrow>
      NON_LIN_CTL_LO \<le> nonLinCtl s \<and> nonLinCtl s \<le> NON_LIN_CTL_HI) \<and>
   (\<forall>s. nonLinCtl s = NON_LIN_CTL_HI \<longrightarrow> animSpecialKeys GLUT_KEY_UP s = Some s) \<and>
   (\<forall>s. nonLinCtl s = NON_LIN_CTL_LO \<longrightarrow> animSpecialKeys GLUT_KEY_DOWN s = Some s) \<and>
   (\<forall>s. NON_LIN_CTL_LO \<le> nonLinCtl s \<and> nonLinCtl s < NON_LIN_CTL_HI \<longrightarrow>
      animSpecialKeys GLUT_KEY_UP s =
        Some (s\<lparr>nonLinCtl := nonLinCtl s + 1, nonLin := nonLinCtlCurve (nonLinCtl s + 1)\<rparr>)) \<and>
   (\<forall>s. NON_LIN_CTL_LO < nonLinCtl s \<and> nonLinCtl s \<le> NON_LIN_CTL_HI \<longrightarrow>
      animSpecialKeys GLUT_KEY_DOWN s =
        Some (s\<lparr>nonLinCtl := nonLinCtl s - 1, nonLin := nonLinCtlCurve (nonLinCtl s - 1)\<rparr>)) \<and>
   NON_LIN_CTL_LO = - 1 \<and> NON_LIN_CTL_HI = 21"
proof -
  have "NON_LIN_CTL_LO \<le> nonLinCtl s \<and> nonLinCtl s \<le> NON_LIN_CTL_HI"
    if "main_init = Some s0 \<and> run N es s0 = Some s" for s0 N es s
    using that main_init_nonLinCtl [of s0] run_nonLinCtl [of N es s0 s]
    by (simp add: NON_LIN_CTL_HI_def NON_LIN_CTL_LO_def)
  then show ?thesis
    by (simp add: NON_LIN_CTL_HI_def NON_LIN_CTL_LO_def)
qed

lemma main_init_eq:
  "main_init =
     Some \<lparr>animDuration = 3039929748475085 / 1125899906842624, nonLinCtl = 12, animFrames = 162,
           nonLin = nonLinCtlCurve 12, currGroupIdx = 0, currAnimFrame = 0\<rparr>"
  by (simp add: main_init_def d2u_def FRAMERATE_def binary64_eval)

theorem nonLinCtl_bounds_witness:
  "(\<exists>s. run 5 [Special GLUT_KEY_UP, Redraw, Special GLUT_KEY_UP]
           \<lparr>animDuration = 3039929748475085 / 1125899906842624, nonLinCtl = 12,
            animFrames = 162, nonLin = nonLinCtlCurve 12, currGroupIdx = 0,
            currAnimFrame = 0\<rparr> = Some s \<and>
        nonLinCtl s = 14 \<and> NON_LIN_CTL_LO \<le> nonLinCtl s \<and> nonLinCtl s \<le> NON_LIN_CTL_HI) \<and>
   animSpecialKeys GLUT_KEY_UP
     \<lparr>animDuration = 1, nonLinCtl = 21, animFrames = 60, nonLin = 7, currGroupIdx = 0,
      currAnimFrame = 0\<rparr> =
   Some \<lparr>animDuration = 1, nonLinCtl = 21, animFrames = 60, nonLin = 7, currGroupIdx = 0,
         currAnimFrame = 0\<rparr>"
proof -
  let ?a = "\<lparr>animDuration = 3039929748475085 / 1125899906842624, nonLinCtl = 12,
    animFrames = 162, nonLin = nonLinCtlCurve 12, currGroupIdx = 0, currAnimFrame = 0\<rparr>"
  let ?b = "\<lparr>animDuration = 3039929748475085 / 1125899906842624, nonLinCtl = 14,
    animFrames = 162, nonLin = nonLinCtlCurve 14, currGroupIdx = 0, currAnimFrame = 1\<rparr>"
  let ?t = "\<lparr>animDuration = 1, nonLinCtl = 21, animFrames = 60, nonLin = 7, currGroupIdx = 0,
    currAnimFrame = 0 :: 32 word\<rparr>"
  have r: "run 5 [Special GLUT_KEY_UP, Redraw, Special GLUT_KEY_UP] ?a = Some ?b"
    by (simp add: animDisplay_def NON_LIN_CTL_HI_def)
  from nonLinCtl_bounds have
    "main_init = Some ?a \<and> run 5 [Special GLUT_KEY_UP, Redraw, Special GLUT_KEY_UP] ?a = Some ?b
       \<longrightarrow> NON_LIN_CTL_LO \<le> nonLinCtl ?b \<and> nonLinCtl ?b \<le> NON_LIN_CTL_HI"
    and "nonLinCtl ?t = NON_LIN_CTL_HI \<longrightarrow> animSpecialKeys GLUT_KEY_UP ?t = Some ?t"
    by blast+
  with r main_init_eq have a: "NON_LIN_CTL_LO \<le> nonLinCtl ?b \<and> nonLinCtl ?b \<le> NON_LIN_CTL_HI"
    and b: "animSpecialKeys GLUT_KEY_UP ?t = Some ?t"
    by (simp_all add: NON_LIN_CTL_HI_def)
  from r a have "\<exists>s. run 5 [Special GLUT_KEY_UP, Redraw, Special GLUT_KEY_UP] ?a = Some s \<and>
        nonLinCtl s = 14 \<and> NON_LIN_CTL_LO \<le> nonLinCtl s \<and> nonLinCtl s \<le> NON_LIN_CTL_HI"
    by (intro exI [of _ ?b]) simp
  with b show ?thesis
    by blast
qed

section \<open>Initialisation: centring and shuffle\<close>

lemma fold_invariant:
  assumes "\<And>x s. x \<in> set xs \<Longrightarrow> Q s \<Longrightarrow> Q (f x s)" and "Q s"
  shows "Q (fold f xs s)"
  using assms by (induction xs arbitrary: s) simp_all

lemma fold_establishes:
  assumes "x \<in> set xs"
    and "\<And>s. Q (f x s)"
    and "\<And>y s. y \<in> set xs \<Longrightarrow> Q s \<Longrightarrow> Q (f y s)"
  shows "Q (fold f xs s)"
  using assms
proof (induction xs arbitrary: s)
  case Nil
  then show ?case by simp
next
  case (Cons y ys)
  show ?case
  proof (cases "x = y")
    case True
    have "Q (fold f ys (f y s))"
      using Cons.prems(2,3) True by (intro fold_invariant [where Q = Q]) simp_all
    then show ?thesis
      by simp
  next
    case False
    with Cons.prems(1) have "x \<in> set ys"
      by simp
    then have "Q (fold f ys (f y s))"
      using Cons.prems(2,3) by (intro Cons.IH) simp_all
    then show ?thesis
      by simp
  qed
qed

lemma upt_4: "[0..<4] = [0, 1, 2, 3]"
  by (simp add: upt_rec)

lemma centre_axis_apply:
  "centre_axis rd i k cg i' j' k' =
     (if i' = i \<and> j' < 4 \<and> k' = k
      then rd (cg i j' k - rd (fold (\<lambda>j av. rd (av + cg i j k)) [0..<4] 0 / 4))
      else cg i' j' k')"
proof -
  have "j' < 4 \<longleftrightarrow> j' = 0 \<or> j' = 1 \<or> j' = 2 \<or> j' = 3"
    by auto
  then show ?thesis
    by (auto simp add: centre_axis_def Let_def upt_4)
qed

lemma centre_axis_exact_sum:
  "(\<Sum>j<4. centre_axis (\<lambda>x. x) i k cg i j k) = 0"
proof -
  have "(\<Sum>j<4. centre_axis (\<lambda>x. x) i k cg i j k) =
          (\<Sum>j<4. cg i j k - fold (\<lambda>j av. av + cg i j k) [0..<4] 0 / 4)"
    by (intro sum.cong) (simp_all add: centre_axis_apply)
  also have "\<dots> = 0"
    by (simp add: upt_4 numeral_eq_Suc field_simps)
  finally show ?thesis .
qed


lemma centre_axis_frame:
  assumes "i' \<noteq> i \<or> k' \<noteq> k"
  shows "centre_axis rd i' k' cg i j k = cg i j k"
  using assms by (auto simp add: centre_axis_apply)

lemma centre_axis_keeps_sum:
  assumes "(\<Sum>j<4. cg i j k) = 0"
  shows "(\<Sum>j<4. centre_axis (\<lambda>x. x) i' k' cg i j k) = 0"
proof (cases "i' = i \<and> k' = k")
  case True
  then show ?thesis
    by (simp add: centre_axis_exact_sum)
next
  case False
  then have "centre_axis (\<lambda>x. x) i' k' cg i j k = cg i j k" for j
    by (intro centre_axis_frame) simp
  with assms show ?thesis
    by simp
qed

lemma centre_group_sum:
  assumes "k < 2"
  shows "(\<Sum>j<4. fold (\<lambda>k cg'. centre_axis (\<lambda>x. x) i k cg') [0..<2] cg i j k) = 0"
proof (rule fold_establishes [where x = k and Q = "\<lambda>c. (\<Sum>j<4. c i j k) = 0"])
  show "k \<in> set [0..<2]"
    using assms by simp
  show "(\<Sum>j<4. centre_axis (\<lambda>x. x) i k s i j k) = 0" for s
    by (rule centre_axis_exact_sum)
  show "(\<Sum>j<4. centre_axis (\<lambda>x. x) i y s i j k) = 0" if "(\<Sum>j<4. s i j k) = 0" for y s
    using that by (rule centre_axis_keeps_sum)
qed

lemma centre_group_keeps_sum:
  assumes "(\<Sum>j<4. cg i j k) = 0"
  shows "(\<Sum>j<4. fold (\<lambda>k cg'. centre_axis (\<lambda>x. x) i' k cg') [0..<2] cg i j k) = 0"
proof (rule fold_invariant [where Q = "\<lambda>c. (\<Sum>j<4. c i j k) = 0"])
  show "(\<Sum>j<4. cg i j k) = 0"
    by (rule assms)
  show "(\<Sum>j<4. centre_axis (\<lambda>x. x) i' y s i j k) = 0" if "(\<Sum>j<4. s i j k) = 0" for y s
    using that by (rule centre_axis_keeps_sum)
qed

lemma centre_groups_sum:
  assumes "i < N" and "k < 2"
  shows "(\<Sum>j<4. centre_groups (\<lambda>x. x) N cg i j k) = 0"
  unfolding centre_groups_def
proof (rule fold_establishes [where x = i and Q = "\<lambda>c. (\<Sum>j<4. c i j k) = 0"])
  show "i \<in> set [0..<N]"
    using assms(1) by simp
  show "(\<Sum>j<4. fold (\<lambda>k cg'. centre_axis (\<lambda>x. x) i k cg') [0..<2] s i j k) = 0" for s
    using assms(2) by (rule centre_group_sum)
  show "(\<Sum>j<4. fold (\<lambda>k cg'. centre_axis (\<lambda>x. x) y k cg') [0..<2] s i j k) = 0"
    if "(\<Sum>j<4. s i j k) = 0" for y s
    using that by (rule centre_group_keeps_sum)
qed

lemma centre_groups_radius:
  "centre_groups rd N cg i j 2 = cg i j 2"
proof -
  have inner: "fold (\<lambda>k cg'. centre_axis rd i' k cg') [0..<2] c i j 2 = cg i j 2"
    if c: "c i j 2 = cg i j 2" for i' c
  proof (rule fold_invariant [where Q = "\<lambda>c. c i j 2 = cg i j 2"])
    show "c i j 2 = cg i j 2"
      by (rule c)
    show "centre_axis rd i' y s i j 2 = cg i j 2" if "y \<in> set [0..<2]" "s i j 2 = cg i j 2" for y s
      using that by (simp add: centre_axis_frame)
  qed
  show ?thesis
    unfolding centre_groups_def
  proof (rule fold_invariant [where Q = "\<lambda>c. c i j 2 = cg i j 2"])
    show "cg i j 2 = cg i j 2"
      by simp
    show "fold (\<lambda>k cg'. centre_axis rd y k cg') [0..<2] s i j 2 = cg i j 2"
      if "s i j 2 = cg i j 2" for y s
      using that by (rule inner)
  qed
qed

lemma upt_2: "[0..<2] = [0, 1]"
  by (simp add: upt_rec)

lemma init_order_prefix:
  assumes "n \<le> length go"
  shows "fold (\<lambda>i go. go \<bind> (\<lambda>g. if i < length g then Some (g[i := i]) else None))
           [0..<n] (Some go) = Some ([0..<n] @ drop n go)"
  using assms
proof (induction n)
  case 0
  then show ?case by simp
next
  case (Suc n)
  then have n: "n < length go"
    by simp
  have d: "drop n go = go ! n # drop (Suc n) go"
    using n by (simp add: Cons_nth_drop_Suc)
  have "([0..<n] @ drop n go)[n := n] = [0..<n] @ (drop n go)[0 := n]"
    by (simp add: list_update_append)
  also have "\<dots> = [0..<n] @ n # drop (Suc n) go"
    by (subst d) simp
  finally have "([0..<n] @ drop n go)[n := n] = [0..<Suc n] @ drop (Suc n) go"
    by simp
  with Suc n show ?case
    by simp
qed

lemma init_order_Some:
  assumes "length go = N"
  shows "init_order N go = Some [0..<N]"
  using init_order_prefix [of N go] assms by (simp add: init_order_def)

lemma shuffle_step_Some:
  assumes "0 \<le> r" and "nat r < length go" and "i < length go"
  shows "\<exists>go'. shuffle_step r i go = Some go' \<and> mset go' = mset go \<and> length go' = length go"
proof -
  have "mset (go[nat r := go ! i, i := go ! nat r]) = mset go"
    by (rule mset_swap [OF assms(3) assms(2)])
  with assms show ?thesis
    by (simp add: shuffle_step_def Let_def)
qed

lemma shuffle_fold_Some:
  assumes "\<forall>i \<in> set ixs. i < length go \<and> 0 \<le> rnd i \<and> nat (rnd i) < length go"
  shows "\<exists>go'. fold (\<lambda>i go. go \<bind> shuffle_step (rnd i) i) ixs (Some go) = Some go' \<and>
           mset go' = mset go \<and> length go' = length go"
  using assms
proof (induction ixs arbitrary: go)
  case Nil
  then show ?case by simp
next
  case (Cons i ixs)
  from Cons.prems have "i < length go" "0 \<le> rnd i" "nat (rnd i) < length go"
    by simp_all
  from shuffle_step_Some [OF this(2,3,1)]
  obtain go1 where go1: "shuffle_step (rnd i) i go = Some go1" "mset go1 = mset go"
      "length go1 = length go"
    by blast
  from Cons.prems go1(3)
  have "\<forall>i \<in> set ixs. i < length go1 \<and> 0 \<le> rnd i \<and> nat (rnd i) < length go1"
    by simp
  from Cons.IH [OF this] go1 show ?case
    by simp
qed

lemma circInit_Some:
  assumes "0 < N" and "length groupOrder = N"
    and "\<forall>i < N - 1. int i \<le> rnd_int32 i N \<and> rnd_int32 i N < int N"
  shows "\<exists>go'. circInit rd N rnd_int32 circleGroups groupOrder =
                  Some (centre_groups rd N circleGroups, go') \<and>
               mset go' = mset [0..<N]"
proof -
  have "\<forall>i \<in> set [0..<N - 1]. i < length [0..<N] \<and> 0 \<le> rnd_int32 i N \<and>
          nat (rnd_int32 i N) < length [0..<N]"
    using assms(3) by auto
  from shuffle_fold_Some [where rnd = "\<lambda>i. rnd_int32 i N", OF this]
  obtain go' where "fold (\<lambda>i go. go \<bind> shuffle_step (rnd_int32 i N) i) [0..<N - 1] (Some [0..<N]) =
      Some go'" and "mset go' = mset [0..<N]"
    by blast
  with assms(1) init_order_Some [OF assms(2)] show ?thesis
    by (simp add: circInit_def Let_def)
qed

lemma circInit_circleGroups:
  assumes "circInit rd N rnd_int32 circleGroups groupOrder = Some (cg', go')"
  shows "cg' = centre_groups rd N circleGroups"
  using assms by (auto simp add: circInit_def Let_def split: if_splits Option.bind_splits)

text \<open>
  Claim C5. If every call \<^verbatim>\<open>rnd_int32(i, NUM_GROUPS)\<close> of the shuffle returns an index from
  \<open>i\<close> up to \<^verbatim>\<open>NUM_GROUPS - 1\<close>, then \<^verbatim>\<open>circInit\<close> returns and leaves in \<^verbatim>\<open>groupOrder\<close> a
  permutation of the indices below \<^verbatim>\<open>NUM_GROUPS\<close>: it has \<^verbatim>\<open>NUM_GROUPS\<close> entries, and
  every index below \<^verbatim>\<open>NUM_GROUPS\<close> occurs in it exactly once.
\<close>

theorem groupOrder_permutation:
  assumes "0 < NUM_GROUPS" and "length groupOrder = NUM_GROUPS"
    and "\<forall>i < NUM_GROUPS - 1.
           int i \<le> rnd_int32 i NUM_GROUPS \<and> rnd_int32 i NUM_GROUPS < int NUM_GROUPS"
  shows "\<exists>cg' go'. circInit rd NUM_GROUPS rnd_int32 circleGroups groupOrder = Some (cg', go') \<and>
           length go' = NUM_GROUPS \<and> mset go' = mset [0..<NUM_GROUPS] \<and>
           (\<forall>k < NUM_GROUPS. count_list go' k = 1)"
proof -
  from circInit_Some [of NUM_GROUPS groupOrder rnd_int32 rd circleGroups] assms
  obtain go' where c: "circInit rd NUM_GROUPS rnd_int32 circleGroups groupOrder =
      Some (centre_groups rd NUM_GROUPS circleGroups, go')" and m: "mset go' = mset [0..<NUM_GROUPS]"
    by blast
  from m have "length go' = NUM_GROUPS"
    using mset_eq_length by fastforce
  moreover have "count_list go' k = 1" if "k < NUM_GROUPS" for k
  proof -
    have "distinct [0..<NUM_GROUPS]"
      by simp
    then have "count (mset [0..<NUM_GROUPS]) k = (if k \<in> set [0..<NUM_GROUPS] then 1 else 0)"
      by (simp only: distinct_count_atmost_1)
    then have "count (mset go') k = 1"
      using that by (simp only: m) simp
    then show ?thesis
      by (simp only: count_mset)
  qed
  ultimately show ?thesis
    using c m by blast
qed

theorem groupOrder_permutation_witness:
  "\<exists>cg' go'. circInit rnd64 3 (\<lambda>i n. 2) (\<lambda>i j k. 0) [7, 7, 7] = Some (cg', go') \<and>
     length go' = 3 \<and> mset go' = mset [0..<3] \<and> (\<forall>k<3. count_list go' k = 1)"
  using groupOrder_permutation [of 3 "[7, 7, 7]" "\<lambda>i n. 2" rnd64 "\<lambda>i j k. 0"]
  by simp


text \<open>
  Claim C6. After \<^verbatim>\<open>circInit\<close>, in exact arithmetic (the rounding \<open>rd\<close> is the identity),
  the x-coordinates of the four circles of every group add up to 0, and so do their
  y-coordinates.
  A run of \<^verbatim>\<open>circInit\<close> is defined when \<^verbatim>\<open>NUM_GROUPS\<close> is positive, \<^verbatim>\<open>groupOrder\<close> has
  \<^verbatim>\<open>NUM_GROUPS\<close> elements and every \<^verbatim>\<open>rnd_int32(i, NUM_GROUPS)\<close> is an index from \<open>i\<close> up
  to \<^verbatim>\<open>NUM_GROUPS - 1\<close>; it then returns.
\<close>

theorem centred_groups:
  "(0 < NUM_GROUPS \<and> length groupOrder = NUM_GROUPS \<and>
    (\<forall>i < NUM_GROUPS - 1.
       int i \<le> rnd_int32 i NUM_GROUPS \<and> rnd_int32 i NUM_GROUPS < int NUM_GROUPS) \<longrightarrow>
    (\<exists>r. circInit (\<lambda>x. x) NUM_GROUPS rnd_int32 circleGroups groupOrder = Some r)) \<and>
   (\<forall>cg' go'. circInit (\<lambda>x. x) NUM_GROUPS rnd_int32 circleGroups groupOrder = Some (cg', go') \<longrightarrow>
      (\<forall>i < NUM_GROUPS. (\<Sum>j<4. cg' i j 0) = 0 \<and> (\<Sum>j<4. cg' i j 1) = 0))"
proof (intro conjI impI allI)
  assume "0 < NUM_GROUPS \<and> length groupOrder = NUM_GROUPS \<and>
    (\<forall>i < NUM_GROUPS - 1.
       int i \<le> rnd_int32 i NUM_GROUPS \<and> rnd_int32 i NUM_GROUPS < int NUM_GROUPS)"
  then show "\<exists>r. circInit (\<lambda>x. x) NUM_GROUPS rnd_int32 circleGroups groupOrder = Some r"
    using circInit_Some [of NUM_GROUPS groupOrder rnd_int32 "\<lambda>x. x" circleGroups] by blast
next
  fix cg' go' i
  assume "circInit (\<lambda>x. x) NUM_GROUPS rnd_int32 circleGroups groupOrder = Some (cg', go')"
  then have cg': "cg' = centre_groups (\<lambda>x. x) NUM_GROUPS circleGroups"
    by (rule circInit_circleGroups)
  assume i: "i < NUM_GROUPS"
  show "(\<Sum>j<4. cg' i j 0) = 0"
    unfolding cg' using i by (rule centre_groups_sum) simp
  show "(\<Sum>j<4. cg' i j 1) = 0"
    unfolding cg' using i by (rule centre_groups_sum) simp
qed

theorem centred_groups_witness:
  "\<exists>cg' go'. circInit (\<lambda>x. x) 2 (\<lambda>i n. 1) (\<lambda>i j k. real (i + j * (k + 1))) [5, 5] = Some (cg', go') \<and>
     (\<Sum>j<4. cg' 1 j 0) = 0 \<and> (\<Sum>j<4. cg' 1 j 1) = 0 \<and> cg' 1 3 1 = 3 \<and> go' = [1, 0]"
proof -
  let ?cg = "\<lambda>i j k. real (i + j * (k + 1))"
  have e: "circInit (\<lambda>x. x) 2 (\<lambda>i n. 1) ?cg [5, 5] =
      Some (centre_groups (\<lambda>x. x) 2 ?cg, [1, 0])"
    by (simp add: circInit_def init_order_def shuffle_step_def upt_2)
  from centred_groups [of 2 "[5, 5]" "\<lambda>i n. 1" ?cg] e
  have "(\<Sum>j<4. centre_groups (\<lambda>x. x) 2 ?cg 1 j 0) = 0 \<and>
        (\<Sum>j<4. centre_groups (\<lambda>x. x) 2 ?cg 1 j 1) = 0"
    by simp
  moreover have "centre_groups (\<lambda>x. x) 2 ?cg 1 3 1 = 3"
    by (simp add: centre_groups_def upt_2 upt_4 centre_axis_apply)
  ultimately show ?thesis
    using e by simp
qed


text \<open>
  Claim C10. \<^verbatim>\<open>circInit\<close> leaves every radius (subscript 2) of \<^verbatim>\<open>circleGroups\<close> as it
  was, whatever the rounding of the arithmetic.
  A run of \<^verbatim>\<open>circInit\<close> is defined when \<^verbatim>\<open>NUM_GROUPS\<close> is positive, \<^verbatim>\<open>groupOrder\<close> has
  \<^verbatim>\<open>NUM_GROUPS\<close> elements and every \<^verbatim>\<open>rnd_int32(i, NUM_GROUPS)\<close> is an index from \<open>i\<close> up
  to \<^verbatim>\<open>NUM_GROUPS - 1\<close>; it then returns.
\<close>

theorem radius_unchanged:
  "(0 < NUM_GROUPS \<and> length groupOrder = NUM_GROUPS \<and>
    (\<forall>i < NUM_GROUPS - 1.
       int i \<le> rnd_int32 i NUM_GROUPS \<and> rnd_int32 i NUM_GROUPS < int NUM_GROUPS) \<longrightarrow>
    (\<exists>r. circInit rd NUM_GROUPS rnd_int32 circleGroups groupOrder = Some r)) \<and>
   (\<forall>cg' go'. circInit rd NUM_GROUPS rnd_int32 circleGroups groupOrder = Some (cg', go') \<longrightarrow>
      (\<forall>i j. cg' i j 2 = circleGroups i j 2))"
proof (intro conjI impI allI)
  assume "0 < NUM_GROUPS \<and> length groupOrder = NUM_GROUPS \<and>
    (\<forall>i < NUM_GROUPS - 1.
       int i \<le> rnd_int32 i NUM_GROUPS \<and> rnd_int32 i NUM_GROUPS < int NUM_GROUPS)"
  then show "\<exists>r. circInit rd NUM_GROUPS rnd_int32 circleGroups groupOrder = Some r"
    using circInit_Some [of NUM_GROUPS groupOrder rnd_int32 rd circleGroups] by blast
next
  fix cg' go' i j
  assume "circInit rd NUM_GROUPS rnd_int32 circleGroups groupOrder = Some (cg', go')"
  then have "cg' = centre_groups rd NUM_GROUPS circleGroups"
    by (rule circInit_circleGroups)
  then show "cg' i j 2 = circleGroups i j 2"
    by (simp add: centre_groups_radius)
qed

theorem radius_unchanged_witness:
  "\<exists>cg' go'. circInit rnd64 2 (\<lambda>i n. 1) (\<lambda>i j k. real (i + j * (k + 1))) [5, 5] = Some (cg', go') \<and>
     cg' 1 3 2 = 10 \<and> cg' 1 3 1 = 3 \<and> go' = [1, 0]"
proof -
  let ?cg = "\<lambda>i j k. real (i + j * (k + 1))"
  have e: "circInit rnd64 2 (\<lambda>i n. 1) ?cg [5, 5] = Some (centre_groups rnd64 2 ?cg, [1, 0])"
    by (simp add: circInit_def init_order_def shuffle_step_def upt_2)
  from radius_unchanged [of 2 "[5, 5]" "\<lambda>i n. 1" rnd64 ?cg] e
  have "centre_groups rnd64 2 ?cg 1 3 2 = ?cg 1 3 2"
    by simp
  moreover have "centre_groups rnd64 2 ?cg 1 3 1 = 3"
    by (simp add: centre_groups_def upt_2 upt_4 centre_axis_apply binary64_eval)
  ultimately show ?thesis
    using e by simp
qed

section \<open>The duration floor\<close>

lemma replicate_numeral: "replicate (numeral n) x = x # replicate (pred_numeral n) x"
  by (simp add: numeral_eq_Suc)

lemma DURATION_CTL_LO_eq: "DURATION_CTL_LO = 3602879701896397 / 18014398509481984"
  by (simp add: DURATION_CTL_LO_def binary64_eval)

lemma DURATION_CTL_DELTA_eq: "DURATION_CTL_DELTA = 3602879701896397 / 72057594037927936"
  by (simp add: DURATION_CTL_DELTA_def binary64_eval)

lemma fifty_right_keys:
  "run NUM_GROUPS (replicate 50 (Special GLUT_KEY_RIGHT))
     \<lparr>animDuration = 3039929748475085 / 1125899906842624, nonLinCtl = 12, animFrames = 162,
      nonLin = nonLinCtlCurve 12, currGroupIdx = 0, currAnimFrame = 0\<rparr> =
   Some \<lparr>animDuration = 1801439850948211 / 9007199254740992, nonLinCtl = 12, animFrames = 12,
         nonLin = nonLinCtlCurve 12, currGroupIdx = 0, currAnimFrame = 0\<rparr>"
  by (simp add: replicate_numeral DURATION_CTL_LO_eq DURATION_CTL_DELTA_eq FRAMERATE_def
      rescale_def d2u_def u2d_def binary64_eval)

lemma run_append: "run N (xs @ ys) s = run N xs s \<bind> run N ys"
  by (induction xs arbitrary: s) (simp_all split: Option.bind_split)

text \<open>
  Claim C8 says that no sequence of left and right keys takes \<open>animDuration\<close> below 0.2.
  The program does not keep this floor. From the state that \<^verbatim>\<open>main\<close> sets up, fifty
  right keys lead to the duration \<open>1801439850948211 / 2\<^sup>5\<^sup>3\<close>, which is just above the
  binary64 value of \<^verbatim>\<open>DURATION_CTL_LO\<close> (the fifty subtractions of 0.05 from 2.7 have
  each been rounded), so the guard lets a fifty-first right key through, and the duration
  is then \<open>2702159776422323 / 2\<^sup>5\<^sup>4\<close>, about 0.15, below the floor.
\<close>

theorem duration_floor_breached:
  "\<exists>s0 s50 s51.
     main_init = Some s0 \<and>
     run NUM_GROUPS (replicate 50 (Special GLUT_KEY_RIGHT)) s0 = Some s50 \<and>
     animDuration s50 = 1801439850948211 / 9007199254740992 \<and>
     DURATION_CTL_LO < animDuration s50 \<and>
     run NUM_GROUPS (replicate 51 (Special GLUT_KEY_RIGHT)) s0 = Some s51 \<and>
     animDuration s51 = 2702159776422323 / 18014398509481984 \<and>
     animDuration s51 < DURATION_CTL_LO \<and> animDuration s51 < 2 / 10"
proof -
  let ?a = "\<lparr>animDuration = 3039929748475085 / 1125899906842624, nonLinCtl = 12, animFrames = 162,
      nonLin = nonLinCtlCurve 12, currGroupIdx = 0, currAnimFrame = 0 :: 32 word\<rparr>"
  let ?b = "\<lparr>animDuration = 1801439850948211 / 9007199254740992, nonLinCtl = 12, animFrames = 12,
      nonLin = nonLinCtlCurve 12, currGroupIdx = 0, currAnimFrame = 0 :: 32 word\<rparr>"
  let ?c = "\<lparr>animDuration = 2702159776422323 / 18014398509481984, nonLinCtl = 12, animFrames = 9,
      nonLin = nonLinCtlCurve 12, currGroupIdx = 0, currAnimFrame = 0 :: 32 word\<rparr>"
  have last: "animSpecialKeys GLUT_KEY_RIGHT ?b = Some ?c"
    by (simp add: DURATION_CTL_LO_eq DURATION_CTL_DELTA_eq FRAMERATE_def
        rescale_def d2u_def u2d_def binary64_eval)
  have "replicate 51 (Special GLUT_KEY_RIGHT) =
          replicate 50 (Special GLUT_KEY_RIGHT) @ [Special GLUT_KEY_RIGHT]"
    using replicate_add [of 50 1 "Special GLUT_KEY_RIGHT"] by simp
  then have "run NUM_GROUPS (replicate 51 (Special GLUT_KEY_RIGHT)) ?a = Some ?c"
    using fifty_right_keys [of NUM_GROUPS] last by (simp only: run_append) simp
  moreover have "DURATION_CTL_LO < animDuration ?b" and "animDuration ?c < DURATION_CTL_LO"
    by (simp_all add: DURATION_CTL_LO_eq)
  moreover have "animDuration ?c < 2 / 10"
    by simp
  ultimately show ?thesis
    using main_init_eq fifty_right_keys [of NUM_GROUPS] by (intro exI [of _ ?a] exI [of _ ?b] exI [of _ ?c]) simp
qed

end
